theory Spec2Isabelle
  imports Complex_Main
begin

section \<open>Shares-outstanding outlier adjustment: data model\<close>

text \<open>
  The source works on pandas Series of float64. A Series is modelled as the ordered list
  of its (index label, value) pairs, so that index and values always have the same
  length. A value of the input is a finite number or missing (NaN): \<open>real option\<close>,
  with \<open>None\<close> for NaN. Arithmetic on finite numbers is exact (rounding and overflow of
  float64 are not modelled); what float64 division adds to the finite numbers, the
  infinities of \<open>x / 0\<close> and the NaN of \<open>0 / 0\<close>, is modelled by the type \<open>fval\<close> of the
  computed ratios.
\<close>

type_synonym label = int

type_synonym 'a series = "(label \<times> 'a) list"

definition index :: "'a series \<Rightarrow> label list" where
  "index s = map fst s"

definition vals :: "'a series \<Rightarrow> 'a list" where
  "vals s = map snd s"

datatype fval = Fin real | PInf | NInf | NaN

datatype error = KeyError | NonScalarLocation | IndexingError | InvalidSeriesError

text \<open>
  \<open>KeyError\<close>: a label that the index does not hold. \<open>NonScalarLocation\<close>: the
  exception raised when the result of \<open>get_loc\<close> on a duplicated label (a slice or a
  boolean array, not an integer) is compared with an integer or used as a slice bound.
  \<open>IndexingError\<close>: a boolean mask whose index is not the index of the series.
  \<open>InvalidSeriesError\<close> is the error the specification names; no statement of the
  source raises it.
\<close>

subsection \<open>Float arithmetic with NaN and division by zero\<close>

fun fsub :: "real option \<Rightarrow> real option \<Rightarrow> real option" where
  "fsub (Some a) (Some b) = Some (a - b)"
| "fsub _ _ = None"

fun fabs :: "real option \<Rightarrow> real option" where
  "fabs (Some a) = Some \<bar>a\<bar>"
| "fabs None = None"

fun fdiv :: "real option \<Rightarrow> real option \<Rightarrow> fval" where
  "fdiv (Some a) (Some b) =
     (if b \<noteq> 0 then Fin (a / b)
      else if a = 0 then NaN
      else if 0 < a then PInf else NInf)"
| "fdiv _ _ = NaN"

fun fgt :: "fval \<Rightarrow> real \<Rightarrow> bool" where
  "fgt (Fin a) t = (t < a)"
| "fgt PInf t = True"
| "fgt NInf t = False"
| "fgt NaN t = False"

fun fle :: "fval \<Rightarrow> real \<Rightarrow> bool" where
  "fle (Fin a) t = (a \<le> t)"
| "fle PInf t = False"
| "fle NInf t = True"
| "fle NaN t = False"

subsection \<open>Index lookup and positional slices\<close>

text \<open>
  \<open>Index.get_loc\<close> returns the integer position of a label that occurs once. For a
  duplicated label it returns a slice or a boolean array; every use the source makes of
  the result then raises, which the model reports at the lookup.
\<close>

definition get_loc :: "label list \<Rightarrow> label \<Rightarrow> error + nat" where
  "get_loc idx l =
     (case filter (\<lambda>i. idx ! i = l) [0..<length idx] of
        [] \<Rightarrow> Inl KeyError
      | [i] \<Rightarrow> Inr i
      | _ \<Rightarrow> Inl NonScalarLocation)"

text \<open>
  \<open>xs.iloc[start:stop]\<close> for a start that is a position of the series: Python's slice
  rule counts a negative stop from the end and clips both ends to the length.
\<close>

definition iloc_slice :: "'a list \<Rightarrow> nat \<Rightarrow> int \<Rightarrow> 'a list" where
  "iloc_slice xs start stop =
     (let n = length xs;
          e = (if stop < 0 then nat (int n + stop) else min n (nat stop))
      in drop start (take e xs))"

section \<open>Percentage change and spike candidates\<close>

definition shift1 :: "real option series \<Rightarrow> real option series" where
  "shift1 s = zip (index s) (None # vals s)"

definition calculate_pct_change :: "real option series \<Rightarrow> fval series" where
  "calculate_pct_change s =
     map2 (\<lambda>(l, x) (_, previous). (l, fdiv (fabs (fsub x previous)) (fabs previous)))
       s (shift1 s)"

definition find_spike_start_indices :: "fval series \<Rightarrow> real \<Rightarrow> label list" where
  "find_spike_start_indices pct_change threshold =
     index (filter (\<lambda>(l, c). fgt c threshold) pct_change)"

section \<open>Reversion search\<close>

definition find_reversion_index ::
  "real option series \<Rightarrow> nat \<Rightarrow> real option \<Rightarrow> real \<Rightarrow> int \<Rightarrow> label option" where
  "find_reversion_index s spike_start_position pre_spike_value threshold max_lookahead =
     (if pre_spike_value = None \<or> pre_spike_value = Some 0 then None
      else
        let search_end = min (int spike_start_position + max_lookahead) (int (length s));
            future_values = iloc_slice s spike_start_position search_end;
            reverted = map (\<lambda>(l, v).
              (l, fle (fdiv (fabs (fsub v pre_spike_value)) (fabs pre_spike_value)) threshold))
              future_values
        in case find snd reverted of
             None \<Rightarrow> None
           | Some (l, _) \<Rightarrow> Some l)"

text \<open>
  \<open>reverted.any()\<close> followed by \<open>reverted.idxmax()\<close> is the label of the first \<open>True\<close>
  entry of the boolean series, when there is one.
\<close>

definition set_true :: "bool series \<Rightarrow> nat \<Rightarrow> nat \<Rightarrow> bool series" where
  "set_true m start_pos end_pos =
     map (\<lambda>(i, (l, b)). (l, b \<or> (start_pos \<le> i \<and> i < end_pos))) (enumerate 0 m)"

definition mark_spike_region :: "bool series \<Rightarrow> label \<Rightarrow> label \<Rightarrow> error + bool series" where
  "mark_spike_region outlier_mask spike_start_label reversion_label =
     (case get_loc (index outlier_mask) spike_start_label of
        Inl e \<Rightarrow> Inl e
      | Inr start_pos \<Rightarrow>
          (case get_loc (index outlier_mask) reversion_label of
             Inl e \<Rightarrow> Inl e
           | Inr end_pos \<Rightarrow> Inr (set_true outlier_mask start_pos end_pos)))"

section \<open>The reversion spike detector\<close>

text \<open>
  The body of the \<open>for spike_label in spike_starts\<close> loop, with the loop state
  (\<open>processed_until\<close>, \<open>outlier_mask\<close>) passed explicitly.
\<close>

fun spike_loop ::
  "real option series \<Rightarrow> real \<Rightarrow> int \<Rightarrow> label list \<Rightarrow> int \<Rightarrow> bool series \<Rightarrow> error + bool series" where
  "spike_loop s threshold max_lookahead [] processed_until outlier_mask = Inr outlier_mask"
| "spike_loop s threshold max_lookahead (spike_label # rest) processed_until outlier_mask =
     (case get_loc (index s) spike_label of
        Inl e \<Rightarrow> Inl e
      | Inr spike_pos \<Rightarrow>
          (if int spike_pos \<le> processed_until
           then spike_loop s threshold max_lookahead rest processed_until outlier_mask
           else
             (let pre_spike_value = (if 0 < spike_pos then snd (s ! (spike_pos - 1)) else None)
              in (case find_reversion_index s spike_pos pre_spike_value threshold max_lookahead of
                    None \<Rightarrow> spike_loop s threshold max_lookahead rest processed_until outlier_mask
                  | Some reversion_label \<Rightarrow>
                      (case mark_spike_region outlier_mask spike_label reversion_label of
                         Inl e \<Rightarrow> Inl e
                       | Inr outlier_mask' \<Rightarrow>
                           (case get_loc (index s) reversion_label of
                              Inl e \<Rightarrow> Inl e
                            | Inr r \<Rightarrow>
                                spike_loop s threshold max_lookahead rest (int r) outlier_mask'))))))"

definition all_false :: "'a series \<Rightarrow> bool series" where
  "all_false s = map (\<lambda>(l, _). (l, False)) s"

definition detect_reverting_spikes ::
  "real option series \<Rightarrow> real \<Rightarrow> int \<Rightarrow> error + bool series" where
  "detect_reverting_spikes s threshold max_lookahead =
     spike_loop s threshold max_lookahead
       (find_spike_start_indices (calculate_pct_change s) threshold) (- 1) (all_false s)"

definition MAX_LOOKAHEAD_DAYS :: int where
  "MAX_LOOKAHEAD_DAYS = 600"

section \<open>The rolling-median detector\<close>

text \<open>
  \<open>series.rolling(window=63, center=True, min_periods=5).median()\<close>: the window of
  position \<open>i\<close> is \<open>i - 31 .. i + 31\<close>, clipped to the series; missing values are left
  out; with fewer than five values present the median is missing. The median of an even
  number of values is the mean of the two middle ones.
\<close>

definition ROLLING_WINDOW_DAYS :: nat where
  "ROLLING_WINDOW_DAYS = 63"

definition ROLLING_DEVIATION_THRESHOLD :: real where
  "ROLLING_DEVIATION_THRESHOLD = 0.40"

definition median :: "real list \<Rightarrow> real" where
  "median xs =
     (let ys = sort xs; n = length ys
      in if odd n then ys ! (n div 2) else (ys ! (n div 2 - 1) + ys ! (n div 2)) / 2)"

definition window_values :: "real option list \<Rightarrow> nat \<Rightarrow> real list" where
  "window_values vs i =
     (let offset = (ROLLING_WINDOW_DAYS - 1) div 2;
          stop = min (length vs) (i + 1 + offset);
          start = (i + 1 + offset) - ROLLING_WINDOW_DAYS
      in concat (map (\<lambda>v. case v of None \<Rightarrow> [] | Some x \<Rightarrow> [x]) (drop start (take stop vs))))"

definition rolling_median :: "real option list \<Rightarrow> nat \<Rightarrow> real option" where
  "rolling_median vs i =
     (let w = window_values vs i
      in if 5 \<le> length w then Some (median w) else None)"

definition detect_rolling_median_outliers :: "real option series \<Rightarrow> bool series" where
  "detect_rolling_median_outliers s =
     map (\<lambda>(i, (l, v)).
            let m = rolling_median (vals s) i;
                deviation = fdiv (fabs (fsub v m)) (fabs m)
            in (l, fgt deviation ROLLING_DEVIATION_THRESHOLD))
       (enumerate 0 s)"

section \<open>Forward-fill correction\<close>

text \<open>
  \<open>ffill\<close> carries the last value that is not missing forward over every missing
  entry; before the first such value nothing is filled.
\<close>

fun ffill_from :: "real option \<Rightarrow> real option series \<Rightarrow> real option series" where
  "ffill_from last_valid [] = []"
| "ffill_from last_valid ((l, None) # rest) = (l, last_valid) # ffill_from last_valid rest"
| "ffill_from last_valid ((l, Some v) # rest) = (l, Some v) # ffill_from (Some v) rest"

definition ffill :: "real option series \<Rightarrow> real option series" where
  "ffill s = ffill_from None s"

text \<open>
  \<open>corrected[outlier_mask] = np.nan\<close> takes the mask by position when the mask has the
  index of the series, which is the case for every mask the detectors build. A mask on
  another index is outside the model and reported as \<open>IndexingError\<close>.
\<close>

definition set_nan :: "real option series \<Rightarrow> bool series \<Rightarrow> real option series" where
  "set_nan s outlier_mask = map2 (\<lambda>(l, v) (_, b). (l, if b then None else v)) s outlier_mask"

definition apply_forward_fill_correction ::
  "real option series \<Rightarrow> bool series \<Rightarrow> error + real option series" where
  "apply_forward_fill_correction s outlier_mask =
     (if index outlier_mask \<noteq> index s then Inl IndexingError
      else Inr (ffill (set_nan s outlier_mask)))"

section \<open>The correction pipeline\<close>

definition reversion_pass :: "real \<Rightarrow> real option series \<Rightarrow> error + real option series" where
  "reversion_pass threshold corrected =
     (case detect_reverting_spikes corrected threshold MAX_LOOKAHEAD_DAYS of
        Inl e \<Rightarrow> Inl e
      | Inr outliers \<Rightarrow> apply_forward_fill_correction corrected outliers)"

definition rolling_pass :: "real option series \<Rightarrow> error + real option series" where
  "rolling_pass corrected =
     apply_forward_fill_correction corrected (detect_rolling_median_outliers corrected)"

definition correct_shares_outstanding_outliers ::
  "real option series \<Rightarrow> error + real option series" where
  "correct_shares_outstanding_outliers s =
     (case reversion_pass 1.00 s of
        Inl e \<Rightarrow> Inl e
      | Inr c1 \<Rightarrow>
          (case reversion_pass 0.50 c1 of
             Inl e \<Rightarrow> Inl e
           | Inr c2 \<Rightarrow>
               (case reversion_pass 0.35 c2 of
                  Inl e \<Rightarrow> Inl e
                | Inr c3 \<Rightarrow> rolling_pass c3)))"

section \<open>Predicates and example series used in the statements\<close>

text \<open>
  \<open>copies_forward s out\<close>: \<open>out\<close> has the index of \<open>s\<close>, and every value present in
  \<open>out\<close> is the value of \<open>s\<close> at the same or an earlier position.
\<close>

definition copies_forward :: "real option series \<Rightarrow> real option series \<Rightarrow> bool" where
  "copies_forward s out \<longleftrightarrow>
     index out = index s \<and>
     (\<forall>i<length s. \<forall>x. snd (out ! i) = Some x \<longrightarrow> (\<exists>j\<le>i. snd (s ! j) = Some x))"

text \<open>Scenario A of the specification: a spike of 150 percent that reverts at once.\<close>

definition scenario_a :: "real option series" where
  "scenario_a =
     [(0, Some 100), (1, Some 100), (2, Some 100), (3, Some 250), (4, Some 100), (5, Some 100)]"

text \<open>
  \<open>reverted_at s v t r\<close>: the value at position \<open>r\<close> is present and its absolute
  deviation from the pre-spike value \<open>v\<close>, divided by \<open>\<bar>v\<bar>\<close>, is at most \<open>t\<close>.
\<close>

definition reverted_at :: "real option series \<Rightarrow> real \<Rightarrow> real \<Rightarrow> nat \<Rightarrow> bool" where
  "reverted_at s v t r \<longleftrightarrow>
     (case snd (s ! r) of None \<Rightarrow> False | Some x \<Rightarrow> \<bar>x - v\<bar> / \<bar>v\<bar> \<le> t)"

text \<open>
  The positions searched for a reversion from a spike at position \<open>p\<close> are
  \<open>p, \<dots>, search_stop n p L - 1\<close>; for a positive lookahead \<open>L\<close> the stop is
  \<open>min (p + L) n\<close>. \<open>first_reversion\<close> is the reversion search of the loop body read
  on positions: the pre-spike guard and the first reverted position of the window.
\<close>

definition search_stop :: "nat \<Rightarrow> nat \<Rightarrow> int \<Rightarrow> nat" where
  "search_stop n p L =
     (let e = min (int p + L) (int n)
      in if e < 0 then nat (int n + e) else min n (nat e))"

definition first_reversion :: "real option series \<Rightarrow> real \<Rightarrow> int \<Rightarrow> nat \<Rightarrow> nat option" where
  "first_reversion s t L p =
     (if p = 0 then None
      else case snd (s ! (p - 1)) of
             None \<Rightarrow> None
           | Some v \<Rightarrow>
               if v = 0 then None
               else find (reverted_at s v t) [p..<search_stop (length s) p L])"

text \<open>
  The regions \<open>(start, reversion)\<close> that the loop resolves, read on positions: the loop
  of \<open>spike_loop\<close> with the candidates given by position and the mask left out.
\<close>

fun spike_regions ::
  "real option series \<Rightarrow> real \<Rightarrow> int \<Rightarrow> nat list \<Rightarrow> int \<Rightarrow> (nat \<times> nat) list" where
  "spike_regions s t L [] pu = []"
| "spike_regions s t L (p # ps) pu =
     (if int p \<le> pu then spike_regions s t L ps pu
      else (case first_reversion s t L p of
              None \<Rightarrow> spike_regions s t L ps pu
            | Some r \<Rightarrow> (p, r) # spike_regions s t L ps (int r)))"

text \<open>\<open>mark_regions\<close> marks the regions in turn, as \<open>mark_spike_region\<close> does.\<close>

definition mark_regions :: "(nat \<times> nat) list \<Rightarrow> bool series \<Rightarrow> bool series" where
  "mark_regions regions m = fold (\<lambda>(p, r) m. set_true m p r) regions m"

text \<open>The candidate spike starts by position, in increasing order.\<close>

definition spike_candidates :: "real option series \<Rightarrow> real \<Rightarrow> nat list" where
  "spike_candidates s t =
     filter (\<lambda>p. fgt (snd (calculate_pct_change s ! p)) t) [0..<length s]"

text \<open>Two reverting spikes, of one and of two positions, on labels that are not positions.\<close>

definition two_spikes :: "real option series" where
  "two_spikes =
     [(10, Some 100), (11, Some 100), (12, Some 250), (13, Some 100), (14, Some 100),
      (15, Some 300), (16, Some 300), (17, Some 100)]"






text \<open>A series whose rolling median is zero.\<close>

definition zero_median :: "real option series" where
  "zero_median = [(0, Some 0), (1, Some 0), (2, Some 7), (3, Some 0), (4, Some 0)]"

text \<open>A series on which the pipeline is not idempotent.\<close>

definition drifting :: "real option series" where
  "drifting =
     [(0, Some 40), (1, Some 40), (2, Some 10), (3, Some 10), (4, Some 10),
      (5, Some 15), (6, Some 15)]"



section \<open>Properties of the forward-fill correction\<close>

lemma index_ffill_from: "index (ffill_from lv s) = index s"
  by (induction lv s rule: ffill_from.induct) (simp_all add: index_def)

lemma length_index: "length (index s) = length s"
  by (simp add: index_def)

lemma index_eq_length: "index m = index s \<Longrightarrow> length m = length s"
  by (auto simp: index_def dest: map_eq_imp_length_eq)

lemma length_ffill_from: "length (ffill_from lv s) = length s"
  by (induction lv s rule: ffill_from.induct) simp_all

lemma ffill_from_nth:
  "i < length s \<Longrightarrow>
   snd (ffill_from lv s ! i) =
     (case snd (s ! i) of
        Some v \<Rightarrow> Some v
      | None \<Rightarrow> if i = 0 then lv else snd (ffill_from lv s ! (i - 1)))"
proof (induction lv s arbitrary: i rule: ffill_from.induct)
  case (1 lv)
  then show ?case by simp
next
  case (2 lv l rest)
  show ?case
  proof (cases i)
    case 0
    then show ?thesis by simp
  next
    case (Suc n)
    with 2 have n: "n < length rest" by simp
    show ?thesis
      unfolding Suc using "2.IH"[OF n]
      by (auto simp: nth_Cons' split: option.splits)
  qed
next
  case (3 lv l v rest)
  show ?case
  proof (cases i)
    case 0
    then show ?thesis by simp
  next
    case (Suc n)
    with 3 have n: "n < length rest" by simp
    show ?thesis
      unfolding Suc using "3.IH"[OF n]
      by (auto simp: nth_Cons' split: option.splits)
  qed
qed

lemma length_set_nan: "length m = length s \<Longrightarrow> length (set_nan s m) = length s"
  by (simp add: set_nan_def)

lemma index_set_nan: "length m = length s \<Longrightarrow> index (set_nan s m) = index s"
  unfolding set_nan_def index_def
  by (induction s m rule: list_induct2') auto

lemma set_nan_nth: "length m = length s \<Longrightarrow> i < length s \<Longrightarrow>
  snd (set_nan s m ! i) = (if snd (m ! i) then None else snd (s ! i))"
  unfolding set_nan_def by (auto simp: split_beta)

lemma apply_ffc_Inr:
  "index m = index s \<Longrightarrow> apply_forward_fill_correction s m = Inr (ffill (set_nan s m))"
  by (simp add: apply_forward_fill_correction_def)

lemma apply_ffc_InrD:
  "apply_forward_fill_correction s m = Inr out \<Longrightarrow> index m = index s \<and> out = ffill (set_nan s m)"
  by (auto simp: apply_forward_fill_correction_def split: if_splits)

lemma index_ffill_set_nan: "index m = index s \<Longrightarrow> index (ffill (set_nan s m)) = index s"
  using index_eq_length[of m s] by (simp add: ffill_def index_ffill_from index_set_nan)

lemma length_ffill_set_nan: "index m = index s \<Longrightarrow> length (ffill (set_nan s m)) = length s"
  using index_eq_length[of m s] by (simp add: ffill_def length_ffill_from length_set_nan)

lemma ffill_set_nan_nth:
  assumes "index m = index s" "i < length s"
  shows "snd (ffill (set_nan s m) ! i) =
     (if \<not> snd (m ! i) \<and> snd (s ! i) \<noteq> None then snd (s ! i)
      else if i = 0 then None else snd (ffill (set_nan s m) ! (i - 1)))"
proof -
  have len: "length m = length s" using assms(1) by (rule index_eq_length)
  have "i < length (set_nan s m)" using assms(2) len by (simp add: length_set_nan)
  from ffill_from_nth[OF this, of None] show ?thesis
    unfolding ffill_def set_nan_nth[OF len assms(2)]
    by (cases "snd (m ! i)"; cases "snd (s ! i)"; simp)
qed

text \<open>
  Claim C2, as stated, fails: a missing value at a position that the mask does not flag
  is overwritten. With no position flagged, the missing value at position 1 is filled
  with the value of position 0.
\<close>

theorem forward_fill_overwrites_unflagged_missing:
  "apply_forward_fill_correction [(0, Some 1), (1, None)] [(0, False), (1, False)]
     = Inr [(0, Some 1), (1, Some 1)]"
  by (simp add: apply_forward_fill_correction_def index_def ffill_def set_nan_def)

text \<open>
  Claim C2, amended: for a mask over the index of the series, the corrector returns a
  series over the same index, and at every position that the mask does not flag a
  present value is unchanged, while a missing value takes the corrected value of the
  position before it (it stays missing at position 0).
\<close>

theorem forward_fill_unflagged_position:
  assumes "index m = index s" and "i < length s" and "\<not> snd (m ! i)"
  shows "\<exists>out. apply_forward_fill_correction s m = Inr out \<and> index out = index s \<and>
           snd (out ! i) =
             (case snd (s ! i) of
                Some x \<Rightarrow> Some x
              | None \<Rightarrow> if i = 0 then None else snd (out ! (i - 1)))"
proof -
  let ?out = "ffill (set_nan s m)"
  have "snd (?out ! i) =
          (case snd (s ! i) of Some x \<Rightarrow> Some x
           | None \<Rightarrow> if i = 0 then None else snd (?out ! (i - 1)))"
    unfolding ffill_set_nan_nth[OF assms(1,2)] using assms(3)
    by (cases "snd (s ! i)") simp_all
  then show ?thesis
    using apply_ffc_Inr[OF assms(1)] index_ffill_set_nan[OF assms(1)] by blast
qed

theorem forward_fill_unflagged_position_witness:
  "index [(0::int, False), (1, False), (2, False)]
     = index [(0::int, Some (1::real)), (1, None), (2, Some 3)] \<and>
   (1::nat) < length [(0::int, Some (1::real)), (1, None), (2, Some 3)] \<and>
   \<not> snd ([(0::int, False), (1, False), (2, False)] ! 1) \<and>
   (\<exists>out. apply_forward_fill_correction [(0, Some 1), (1, None), (2, Some 3)]
            [(0, False), (1, False), (2, False)] = Inr out \<and>
          index out = index [(0::int, Some (1::real)), (1, None), (2, Some 3)] \<and>
          snd (out ! 1) = snd (out ! 0))"
proof -
  have h1: "index [(0::int, False), (1, False), (2, False)]
              = index [(0::int, Some (1::real)), (1, None), (2, Some 3)]"
    by (simp add: index_def)
  have h2: "(1::nat) < length [(0::int, Some (1::real)), (1, None), (2, Some 3)]" by simp
  have h3: "\<not> snd ([(0::int, False), (1, False), (2, False)] ! 1)" by simp
  from forward_fill_unflagged_position[OF h1 h2 h3] obtain out where
    o: "apply_forward_fill_correction [(0, Some 1), (1, None), (2, Some 3)]
          [(0, False), (1, False), (2, False)] = Inr out"
       "index out = index [(0::int, Some (1::real)), (1, None), (2, Some 3)]"
       "snd (out ! 1) =
          (case snd ([(0::int, Some (1::real)), (1, None), (2, Some 3)] ! 1) of
             Some x \<Rightarrow> Some x
           | None \<Rightarrow> if (1::nat) = 0 then None else snd (out ! (1 - 1)))"
    by blast
  from o(3) have "snd (out ! 1) = snd (out ! 0)" by simp
  with o(1,2) h1 h2 h3 show ?thesis by blast
qed

lemma ffill_set_nan_run:
  assumes idx: "index m = index s" and r: "r \<le> length s" and p: "0 < p"
    and run: "\<forall>i. p \<le> i \<and> i < r \<longrightarrow> snd (m ! i)"
  shows "p \<le> i \<Longrightarrow> i < r \<Longrightarrow>
         snd (ffill (set_nan s m) ! i) = snd (ffill (set_nan s m) ! (p - 1))"
proof (induction i rule: nat_induct_at_least)
  case base
  then have "p < length s" using r by simp
  from ffill_set_nan_nth[OF idx this] run base p show ?case by simp
next
  case (Suc n)
  then have "Suc n < length s" using r by simp
  from ffill_set_nan_nth[OF idx this] run Suc show ?case by simp
qed

lemma ffill_set_nan_keeps:
  assumes "index m = index s" "i < length s" "\<not> snd (m ! i)" "snd (s ! i) = Some x"
  shows "snd (ffill (set_nan s m) ! i) = Some x"
  using ffill_set_nan_nth[OF assms(1,2)] assms(3,4) by simp

lemma ffill_set_nan_fills:
  assumes "index m = index s" "i < length s" "snd (m ! i) \<or> snd (s ! i) = None"
  shows "snd (ffill (set_nan s m) ! i) =
           (if i = 0 then None else snd (ffill (set_nan s m) ! (i - 1)))"
  using ffill_set_nan_nth[OF assms(1,2)] assms(3) by auto

lemma ffill_set_nan_copies:
  assumes idx: "index m = index s"
  shows "i < length s \<Longrightarrow> snd (ffill (set_nan s m) ! i) = Some x \<Longrightarrow>
         \<exists>j\<le>i. snd (s ! j) = Some x"
proof (induction i)
  case 0
  show ?case
  proof (cases "\<not> snd (m ! 0) \<and> snd (s ! 0) \<noteq> None")
    case True
    with ffill_set_nan_nth[OF idx 0(1)] 0(2) have "snd (s ! 0) = Some x" by simp
    then show ?thesis by blast
  next
    case False
    then have "snd (m ! 0) \<or> snd (s ! 0) = None" by blast
    from ffill_set_nan_fills[OF idx 0(1) this] 0(2) show ?thesis by simp
  qed
next
  case (Suc n)
  show ?case
  proof (cases "\<not> snd (m ! Suc n) \<and> snd (s ! Suc n) \<noteq> None")
    case True
    with ffill_set_nan_nth[OF idx Suc(2)] Suc(3) have "snd (s ! Suc n) = Some x" by simp
    then show ?thesis by blast
  next
    case False
    then have "snd (m ! Suc n) \<or> snd (s ! Suc n) = None" by blast
    from ffill_set_nan_fills[OF idx Suc(2) this] Suc(3)
    have "snd (ffill (set_nan s m) ! n) = Some x" by simp
    with Suc have "\<exists>j\<le>n. snd (s ! j) = Some x" by simp
    then show ?thesis using le_Suc_eq by blast
  qed
qed

lemma apply_ffc_copies:
  "apply_forward_fill_correction s m = Inr out \<Longrightarrow> copies_forward s out"
  unfolding copies_forward_def
  using apply_ffc_InrD[of s m out] index_ffill_set_nan[of m s] ffill_set_nan_copies[of m s]
  by blast

lemma copies_forward_trans:
  assumes "copies_forward a b" "copies_forward b c"
  shows "copies_forward a c"
proof -
  have len: "length b = length a" using assms(1) index_eq_length copies_forward_def by blast
  have idx: "index c = index a" using assms by (simp add: copies_forward_def)
  have "\<exists>j\<le>i. snd (a ! j) = Some x" if i: "i < length a" and x: "snd (c ! i) = Some x" for i x
  proof -
    from assms(2) i x len obtain k where k: "k \<le> i" "snd (b ! k) = Some x"
      unfolding copies_forward_def by auto
    with assms(1) i obtain j where "j \<le> k" "snd (a ! j) = Some x"
      unfolding copies_forward_def by (meson le_less_trans)
    with k show ?thesis using le_trans by blast
  qed
  with idx show ?thesis unfolding copies_forward_def by blast
qed

lemma reversion_pass_copies: "reversion_pass t s = Inr out \<Longrightarrow> copies_forward s out"
  by (auto simp: reversion_pass_def split: sum.splits intro: apply_ffc_copies)

lemma rolling_pass_copies: "rolling_pass s = Inr out \<Longrightarrow> copies_forward s out"
  by (auto simp: rolling_pass_def intro: apply_ffc_copies)

lemma pipeline_copies:
  assumes "correct_shares_outstanding_outliers s = Inr out"
  shows "copies_forward s out"
proof -
  from assms obtain c1 c2 c3 where
    p1: "reversion_pass 1.00 s = Inr c1" and p2: "reversion_pass 0.50 c1 = Inr c2" and
    p3: "reversion_pass 0.35 c2 = Inr c3" and p4: "rolling_pass c3 = Inr out"
    by (auto simp: correct_shares_outstanding_outliers_def split: sum.splits)
  have "copies_forward s c2"
    by (rule copies_forward_trans[OF reversion_pass_copies[OF p1] reversion_pass_copies[OF p2]])
  then have "copies_forward s c3"
    by (rule copies_forward_trans[OF _ reversion_pass_copies[OF p3]])
  then show ?thesis
    by (rule copies_forward_trans[OF _ rolling_pass_copies[OF p4]])
qed

text \<open>
  Claim C7, as stated, fails when the value before the run is missing: the run
  \<open>[2, 3)\<close> below follows the unflagged position 1, whose value is missing, and is
  filled with the value of position 0.
\<close>

theorem forward_fill_run_not_previous_value:
  "apply_forward_fill_correction [(0, Some 1), (1, None), (2, Some 5)]
     [(0, False), (1, False), (2, True)] = Inr [(0, Some 1), (1, Some 1), (2, Some 1)]"
  by code_simp

text \<open>
  Claim C7, amended: for a flagged run \<open>[p, r)\<close> with \<open>p > 0\<close> and position \<open>p - 1\<close>
  unflagged, every corrected value inside the run equals the corrected value at
  \<open>p - 1\<close>; when \<open>value[p - 1]\<close> is not missing, that is \<open>value[p - 1]\<close>.
\<close>

theorem forward_fill_flagged_run:
  assumes "index m = index s" and "0 < p" and "r \<le> length s"
    and "\<not> snd (m ! (p - 1))" and "\<forall>i. p \<le> i \<and> i < r \<longrightarrow> snd (m ! i)"
  shows "\<exists>out. apply_forward_fill_correction s m = Inr out \<and>
           (\<forall>i. p \<le> i \<and> i < r \<longrightarrow> snd (out ! i) = snd (out ! (p - 1))) \<and>
           (\<forall>x. snd (s ! (p - 1)) = Some x \<longrightarrow>
              (\<forall>i. p \<le> i \<and> i < r \<longrightarrow> snd (out ! i) = Some x))"
proof -
  let ?out = "ffill (set_nan s m)"
  have run: "\<forall>i. p \<le> i \<and> i < r \<longrightarrow> snd (?out ! i) = snd (?out ! (p - 1))"
    using ffill_set_nan_run[OF assms(1,3,2,5)] by blast
  have keep: "\<forall>x. snd (s ! (p - 1)) = Some x \<longrightarrow>
                (\<forall>i. p \<le> i \<and> i < r \<longrightarrow> snd (?out ! i) = Some x)"
  proof (intro allI impI)
    fix x i assume x: "snd (s ! (p - 1)) = Some x" and i: "p \<le> i \<and> i < r"
    then have "p - 1 < length s" using assms(2,3) by linarith
    from ffill_set_nan_keeps[OF assms(1) this assms(4) x] run i
    show "snd (?out ! i) = Some x" by simp
  qed
  from run keep apply_ffc_Inr[OF assms(1)] show ?thesis by blast
qed

theorem forward_fill_flagged_run_witness:
  "\<exists>out. apply_forward_fill_correction
            [(0, Some 1), (1, Some 9), (2, Some 9), (3, Some 2)]
            [(0, False), (1, True), (2, True), (3, False)] = Inr out \<and>
         snd (out ! 1) = Some 1 \<and> snd (out ! 2) = Some 1"
proof -
  let ?s = "[(0::int, Some (1::real)), (1, Some 9), (2, Some 9), (3, Some 2)]"
  let ?m = "[(0::int, False), (1, True), (2, True), (3, False)]"
  have h1: "index ?m = index ?s" by (simp add: index_def)
  have h2: "(0::nat) < 1" by simp
  have h3: "(3::nat) \<le> length ?s" by simp
  have h4: "\<not> snd (?m ! (1 - 1))" by simp
  have h5: "\<forall>i. (1::nat) \<le> i \<and> i < 3 \<longrightarrow> snd (?m ! i)"
  proof (intro allI impI)
    fix i :: nat assume "1 \<le> i \<and> i < 3"
    then have "i = 1 \<or> i = 2" by arith
    then show "snd (?m ! i)" by auto
  qed
  from forward_fill_flagged_run[OF h1 h2 h3 h4 h5] obtain out where
    o: "apply_forward_fill_correction ?s ?m = Inr out"
       "\<forall>x. snd (?s ! (1 - 1)) = Some x \<longrightarrow>
          (\<forall>i. (1::nat) \<le> i \<and> i < 3 \<longrightarrow> snd (out ! i) = Some x)"
    by blast
  have "snd (?s ! (1 - 1)) = Some 1" by simp
  with o(2) have "\<forall>i. (1::nat) \<le> i \<and> i < 3 \<longrightarrow> snd (out ! i) = Some 1" by blast
  then have "snd (out ! 1) = Some 1 \<and> snd (out ! 2) = Some 1" by simp
  with o(1) show ?thesis by blast
qed

section \<open>Properties of the reversion spike detector\<close>

subsection \<open>Index lookup\<close>

lemma filter_eq_upt: "filter (\<lambda>i. i = p) [0..<n] = (if p < n then [p] else [])"
  by (induction n) auto

lemma get_loc_distinct:
  assumes "distinct idx" "p < length idx"
  shows "get_loc idx (idx ! p) = Inr p"
proof -
  have "filter (\<lambda>i. idx ! i = idx ! p) [0..<length idx] = filter (\<lambda>i. i = p) [0..<length idx]"
    using assms by (intro filter_cong) (auto simp: nth_eq_iff_index_eq)
  then show ?thesis using assms(2) by (simp add: get_loc_def filter_eq_upt)
qed

lemma get_loc_not_invalid: "get_loc idx l \<noteq> Inl InvalidSeriesError"
  by (simp add: get_loc_def split: list.splits)

lemma get_loc_not_indexing: "get_loc idx l \<noteq> Inl IndexingError"
  by (simp add: get_loc_def split: list.splits)

subsection \<open>Percentage change\<close>

lemma length_shift1: "length (shift1 s) = length s"
  by (simp add: shift1_def index_def vals_def)

lemma shift1_nth: "i < length s \<Longrightarrow>
  snd (shift1 s ! i) = (if i = 0 then None else snd (s ! (i - 1)))"
  by (auto simp: shift1_def index_def vals_def nth_Cons')

lemma length_pct_change: "length (calculate_pct_change s) = length s"
  by (simp add: calculate_pct_change_def length_shift1)

lemma pct_change_nth:
  assumes "i < length s"
  shows "calculate_pct_change s ! i =
           (fst (s ! i),
            let previous = (if i = 0 then None else snd (s ! (i - 1)))
            in fdiv (fabs (fsub (snd (s ! i)) previous)) (fabs previous))"
  using assms shift1_nth[OF assms]
  by (simp add: calculate_pct_change_def length_shift1 split_beta Let_def)

lemma index_pct_change: "index (calculate_pct_change s) = index s"
  by (intro nth_equalityI) (simp_all add: index_def length_pct_change pct_change_nth)

lemma filter_by_position:
  "map fst (filter (\<lambda>(l, c). P c) xs) =
     map (\<lambda>p. fst (xs ! p)) (filter (\<lambda>p. P (snd (xs ! p))) [0..<length xs])"
proof (induction xs rule: rev_induct)
  case Nil
  then show ?case by simp
next
  case (snoc x xs)
  have "filter (\<lambda>p. P (snd ((xs @ [x]) ! p))) [0..<length xs]
          = filter (\<lambda>p. P (snd (xs ! p))) [0..<length xs]"
    by (intro filter_cong) (auto simp: nth_append)
  moreover have "map (\<lambda>p. fst ((xs @ [x]) ! p)) (filter (\<lambda>p. P (snd (xs ! p))) [0..<length xs])
          = map (\<lambda>p. fst (xs ! p)) (filter (\<lambda>p. P (snd (xs ! p))) [0..<length xs])"
    by (intro map_cong) (auto simp: nth_append)
  ultimately show ?case using snoc by (auto simp: split_beta)
qed

lemma spike_starts_by_position:
  "find_spike_start_indices (calculate_pct_change s) t =
     map (\<lambda>p. index s ! p)
       (filter (\<lambda>p. fgt (snd (calculate_pct_change s ! p)) t) [0..<length s])"
proof -
  have "map (\<lambda>p. fst (calculate_pct_change s ! p))
          (filter (\<lambda>p. fgt (snd (calculate_pct_change s ! p)) t) [0..<length s])
        = map (\<lambda>p. index s ! p)
          (filter (\<lambda>p. fgt (snd (calculate_pct_change s ! p)) t) [0..<length s])"
    by (intro map_cong) (auto simp: pct_change_nth index_def)
  then show ?thesis
    using filter_by_position[of "\<lambda>c. fgt c t" "calculate_pct_change s"]
    by (simp add: find_spike_start_indices_def index_def length_pct_change)
qed

subsection \<open>Reversion search\<close>

lemma find_map_comp: "find P (map f xs) = map_option f (find (P \<circ> f) xs)"
  by (induction xs) auto

lemma iloc_slice_positions:
  "iloc_slice xs p stop =
     map (\<lambda>r. xs ! r) [p..<(if stop < 0 then nat (int (length xs) + stop)
                             else min (length xs) (nat stop))]"
proof -
  define e where "e = (if stop < 0 then nat (int (length xs) + stop) else min (length xs) (nat stop))"
  have e: "e \<le> length xs" by (auto simp: e_def)
  have "drop p (take e xs) = drop p (take e (map (\<lambda>r. xs ! r) [0..<length xs]))"
    by (simp add: map_nth)
  also have "\<dots> = map (\<lambda>r. xs ! r) (drop p (take e [0..<length xs]))"
    by (simp add: take_map drop_map)
  also have "take e [0..<length xs] = [0..<e]" using e by simp
  finally show ?thesis by (simp add: iloc_slice_def Let_def e_def)
qed

lemma deviation_reverted:
  "v \<noteq> 0 \<Longrightarrow>
   fle (fdiv (fabs (fsub (snd (s ! r)) (Some v))) (fabs (Some v))) t = reverted_at s v t r"
  by (cases "snd (s ! r)") (simp_all add: reverted_at_def)

lemma search_stop_le: "search_stop n p L \<le> n"
  by (auto simp: search_stop_def Let_def)

lemma find_reversion_index_positional:
  assumes "0 < p"
  shows "find_reversion_index s p (snd (s ! (p - 1))) t L =
           map_option (\<lambda>r. index s ! r) (first_reversion s t L p)"
proof (cases "snd (s ! (p - 1))")
  case None
  then show ?thesis using assms by (simp add: find_reversion_index_def first_reversion_def)
next
  case (Some v)
  show ?thesis
  proof (cases "v = 0")
    case True
    then show ?thesis using assms Some by (simp add: find_reversion_index_def first_reversion_def)
  next
    case False
    let ?stop = "search_stop (length s) p L"
    let ?f = "\<lambda>(l, x). (l, fle (fdiv (fabs (fsub x (Some v))) (fabs (Some v))) t)"
    have slice: "iloc_slice s p (min (int p + L) (int (length s))) = map (\<lambda>r. s ! r) [p..<?stop]"
      unfolding iloc_slice_positions search_stop_def Let_def by simp
    have pred: "snd \<circ> (?f \<circ> (\<lambda>r. s ! r)) = reverted_at s v t"
      by (simp add: fun_eq_iff split_beta deviation_reverted[OF False] del: fabs.simps)
    have "find snd (map ?f (map (\<lambda>r. s ! r) [p..<?stop]))
            = map_option (\<lambda>r. ?f (s ! r)) (find (reverted_at s v t) [p..<?stop])"
      unfolding map_map find_map_comp pred by (simp add: comp_def)
    then have fri: "find_reversion_index s p (Some v) t L =
        map_option (\<lambda>r. fst (s ! r)) (find (reverted_at s v t) [p..<?stop])"
      using False
      by (simp add: find_reversion_index_def slice Let_def option.map_comp comp_def
            split_beta split: option.splits)
    have "map_option (\<lambda>r. fst (s ! r)) (find (reverted_at s v t) [p..<?stop])
            = map_option (\<lambda>r. index s ! r) (find (reverted_at s v t) [p..<?stop])"
    proof (cases "find (reverted_at s v t) [p..<?stop]")
      case None
      then show ?thesis by simp
    next
      case (Some r)
      then have "r \<in> set [p..<?stop]" by (auto simp: find_Some_iff)
      then have "r < length s" using search_stop_le[of "length s" p L] by simp
      then show ?thesis using Some by (simp add: index_def)
    qed
    with fri show ?thesis
      using assms Some False by (simp add: first_reversion_def)
  qed
qed

subsection \<open>Marking a region\<close>

lemma length_set_true: "length (set_true m a b) = length m"
  by (simp add: set_true_def)

lemma set_true_nth:
  "i < length m \<Longrightarrow> set_true m a b ! i = (fst (m ! i), snd (m ! i) \<or> (a \<le> i \<and> i < b))"
  by (simp add: set_true_def nth_enumerate_eq split_beta)

lemma index_set_true: "index (set_true m a b) = index m"
  by (intro nth_equalityI) (simp_all add: index_def length_set_true set_true_nth)

lemma mark_spike_region_distinct:
  assumes "distinct (index m)" "p < length m" "r < length m"
  shows "mark_spike_region m (index m ! p) (index m ! r) = Inr (set_true m p r)"
  using assms by (simp add: mark_spike_region_def get_loc_distinct length_index)

lemma index_mark_regions: "index (mark_regions regions m) = index m"
  unfolding mark_regions_def
  by (induction regions arbitrary: m) (auto simp: index_set_true)

lemma length_mark_regions: "length (mark_regions regions m) = length m"
  using index_mark_regions[of regions m] by (rule index_eq_length)

lemma mark_regions_nth:
  "i < length m \<Longrightarrow>
   snd (mark_regions regions m ! i) = (snd (m ! i) \<or> (\<exists>(p, r)\<in>set regions. p \<le> i \<and> i < r))"
  unfolding mark_regions_def
proof (induction regions arbitrary: m)
  case Nil
  then show ?case by simp
next
  case (Cons a regions)
  obtain p r where a: "a = (p, r)" by (cases a)
  have "i < length (set_true m p r)" using Cons.prems by (simp add: length_set_true)
  from Cons.IH[OF this] Cons.prems show ?case
    by (auto simp: a set_true_nth)
qed

subsection \<open>The loop body on positions\<close>

lemma first_reversion_bounds:
  assumes "first_reversion s t L p = Some r"
  shows "0 < p \<and> p \<le> r \<and> r < search_stop (length s) p L \<and> r < length s"
proof -
  from assms obtain v where
    "0 < p" and f: "find (reverted_at s v t) [p..<search_stop (length s) p L] = Some r"
    by (auto simp: first_reversion_def split: if_splits option.splits)
  from f have "r \<in> set [p..<search_stop (length s) p L]" by (auto simp: find_Some_iff)
  then show ?thesis using \<open>0 < p\<close> search_stop_le[of "length s" p L] by simp
qed

lemma spike_loop_step:
  assumes d: "distinct (index s)" and p: "p < length s" and m: "index m = index s"
  shows "spike_loop s t L (index s ! p # ls) pu m =
           (if int p \<le> pu then spike_loop s t L ls pu m
            else (case first_reversion s t L p of
                    None \<Rightarrow> spike_loop s t L ls pu m
                  | Some r \<Rightarrow> spike_loop s t L ls (int r) (set_true m p r)))"
proof (cases "int p \<le> pu")
  case True
  then show ?thesis using d p by (simp add: get_loc_distinct length_index)
next
  case False
  have loc: "get_loc (index s) (index s ! p) = Inr p"
    using d p by (simp add: get_loc_distinct length_index)
  have len: "length m = length s" using m by (rule index_eq_length)
  show ?thesis
  proof (cases "p = 0")
    case True
    then show ?thesis using False loc
      by (simp add: find_reversion_index_def first_reversion_def)
  next
    case nz: False
    have fri: "find_reversion_index s p (snd (s ! (p - 1))) t L =
                 map_option (\<lambda>r. index s ! r) (first_reversion s t L p)"
      using nz by (intro find_reversion_index_positional) simp
    show ?thesis
    proof (cases "first_reversion s t L p")
      case None
      then show ?thesis using False loc nz fri by simp
    next
      case (Some r)
      then have r: "r < length s" using first_reversion_bounds by blast
      have mark: "mark_spike_region m (index s ! p) (index s ! r) = Inr (set_true m p r)"
        using mark_spike_region_distinct[of m p r] d p r m len by simp
      have locr: "get_loc (index s) (index s ! r) = Inr r"
        using d r by (simp add: get_loc_distinct length_index)
      show ?thesis using False loc nz fri Some mark locr by simp
    qed
  qed
qed

lemma spike_loop_positional:
  assumes d: "distinct (index s)"
  shows "\<forall>p\<in>set ps. p < length s \<Longrightarrow> index m = index s \<Longrightarrow>
         spike_loop s t L (map (\<lambda>p. index s ! p) ps) pu m =
           Inr (mark_regions (spike_regions s t L ps pu) m)"
proof (induction ps arbitrary: pu m)
  case Nil
  then show ?case by (simp add: mark_regions_def)
next
  case (Cons p ps)
  then have p: "p < length s" and ps: "\<forall>p\<in>set ps. p < length s" by simp_all
  note step = spike_loop_step[OF d p Cons.prems(2), of t L "map (\<lambda>p. index s ! p) ps" pu]
  show ?case
  proof (cases "int p \<le> pu")
    case True
    then show ?thesis using step Cons.IH[OF ps Cons.prems(2)] by simp
  next
    case False
    show ?thesis
    proof (cases "first_reversion s t L p")
      case None
      then show ?thesis using False step Cons.IH[OF ps Cons.prems(2)] by simp
    next
      case (Some r)
      have "index (set_true m p r) = index s"
        using Cons.prems(2) by (simp add: index_set_true)
      from Cons.IH[OF ps this, of "int r"] show ?thesis
        using False Some step by (simp add: mark_regions_def)
    qed
  qed
qed

lemma index_all_false: "index (all_false s) = index s"
  by (simp add: all_false_def index_def split_beta)

lemma all_false_nth: "i < length s \<Longrightarrow> snd (all_false s ! i) = False"
  by (simp add: all_false_def split_beta)

lemma detect_reverting_spikes_positional:
  assumes "distinct (index s)"
  shows "detect_reverting_spikes s t L =
           Inr (mark_regions (spike_regions s t L (spike_candidates s t) (- 1)) (all_false s))"
  unfolding detect_reverting_spikes_def spike_starts_by_position
  using spike_loop_positional[OF assms, of "spike_candidates s t" "all_false s" t L "- 1"]
  by (simp add: spike_candidates_def index_all_false)

subsection \<open>The resolved regions\<close>

lemma spike_regions_member:
  "(p, r) \<in> set (spike_regions s t L ps pu) \<Longrightarrow>
   pu < int p \<and> p \<in> set ps \<and> first_reversion s t L p = Some r"
proof (induction ps arbitrary: pu)
  case Nil
  then show ?case by simp
next
  case (Cons q ps)
  show ?case
  proof (cases "int q \<le> pu")
    case True
    with Cons show ?thesis by simp
  next
    case False
    show ?thesis
    proof (cases "first_reversion s t L q")
      case None
      with False Cons show ?thesis by simp
    next
      case (Some r')
      then have qr: "q \<le> r'" using first_reversion_bounds by blast
      from Cons.prems False Some
      consider "(p, r) = (q, r')" | "(p, r) \<in> set (spike_regions s t L ps (int r'))" by auto
      then show ?thesis
      proof cases
        case 1
        with False Some show ?thesis by simp
      next
        case 2
        from Cons.IH[OF 2] qr False show ?thesis by simp
      qed
    qed
  qed
qed

lemma spike_regions_separated:
  "sorted_wrt (\<lambda>(p1, r1) (p2, r2). r1 < p2) (spike_regions s t L ps pu)"
proof (induction ps arbitrary: pu)
  case Nil
  then show ?case by simp
next
  case (Cons q ps)
  show ?case
  proof (cases "int q \<le> pu")
    case True
    with Cons show ?thesis by simp
  next
    case False
    show ?thesis
    proof (cases "first_reversion s t L q")
      case None
      with False Cons show ?thesis by simp
    next
      case (Some r')
      have "\<forall>(p2, r2)\<in>set (spike_regions s t L ps (int r')). r' < p2"
        using spike_regions_member[of _ _ s t L ps "int r'"] by auto
      with False Some Cons.IH[of "int r'"] show ?thesis by auto
    qed
  qed
qed

lemma candidate_iff:
  "p \<in> set (spike_candidates s t) \<longleftrightarrow> p < length s \<and> fgt (snd (calculate_pct_change s ! p)) t"
  by (auto simp: spike_candidates_def)


lemma candidate_not_reverted:
  assumes c: "p \<in> set (spike_candidates s t)" and f: "first_reversion s t L p = Some r"
  shows "p < r"
proof -
  from c have p: "p < length s" and gt: "fgt (snd (calculate_pct_change s ! p)) t"
    by (simp_all add: candidate_iff)
  from f obtain v where pos: "0 < p" and v: "snd (s ! (p - 1)) = Some v" "v \<noteq> 0"
    and fd: "find (reverted_at s v t) [p..<search_stop (length s) p L] = Some r"
    by (auto simp: first_reversion_def split: if_splits option.splits)
  from fd have rev: "reverted_at s v t r" by (auto simp: find_Some_iff)
  have "\<not> reverted_at s v t p"
    using gt pos v by (cases "snd (s ! p)") (auto simp: pct_change_nth[OF p] reverted_at_def)
  with rev have "r \<noteq> p" by blast
  moreover from f have "p \<le> r" using first_reversion_bounds by blast
  ultimately show ?thesis by simp
qed

subsection \<open>First reverted position of a window\<close>




subsection \<open>The claims on the detector\<close>

text \<open>
  Claim C6: on a series with a unique index, the mask that one call of
  \<open>detect_reverting_spikes\<close> returns marks exactly the regions \<open>[p, r)\<close> that the loop
  resolves; these regions do not overlap: each later region starts strictly after the
  reversion position of every earlier one, so no search begins before a resolved
  reversion; and every region is not empty, ends inside the series and starts at a
  position whose percentage change, computed on the input of this call, strictly exceeds
  the threshold.
\<close>

theorem reverting_spike_regions_do_not_overlap:
  assumes "distinct (index s)"
  shows "\<exists>mask. detect_reverting_spikes s t L = Inr mask \<and> index mask = index s \<and>
           (\<forall>i<length s. snd (mask ! i) =
              (\<exists>(p, r)\<in>set (spike_regions s t L (spike_candidates s t) (- 1)). p \<le> i \<and> i < r)) \<and>
           sorted_wrt (\<lambda>(p1, r1) (p2, r2). r1 < p2)
             (spike_regions s t L (spike_candidates s t) (- 1)) \<and>
           (\<forall>(p, r)\<in>set (spike_regions s t L (spike_candidates s t) (- 1)).
              p < r \<and> r < length s \<and> fgt (snd (calculate_pct_change s ! p)) t)"
proof -
  let ?regions = "spike_regions s t L (spike_candidates s t) (- 1)"
  let ?mask = "mark_regions ?regions (all_false s)"
  have det: "detect_reverting_spikes s t L = Inr ?mask"
    by (rule detect_reverting_spikes_positional[OF assms])
  have idx: "index ?mask = index s"
    by (simp add: index_mark_regions index_all_false)
  have len: "length (all_false s) = length s"
    using index_all_false[of s] by (rule index_eq_length)
  have marks: "\<forall>i<length s. snd (?mask ! i) = (\<exists>(p, r)\<in>set ?regions. p \<le> i \<and> i < r)"
    using mark_regions_nth[of _ "all_false s" ?regions] len by (simp add: all_false_nth)
  have props: "\<forall>(p, r)\<in>set ?regions.
                 p < r \<and> r < length s \<and> fgt (snd (calculate_pct_change s ! p)) t"
  proof (intro ballI, clarify)
    fix p r assume "(p, r) \<in> set ?regions"
    then have c: "p \<in> set (spike_candidates s t)" and f: "first_reversion s t L p = Some r"
      using spike_regions_member by blast+
    from candidate_not_reverted[OF c f] first_reversion_bounds[OF f] c
    show "p < r \<and> r < length s \<and> fgt (snd (calculate_pct_change s ! p)) t"
      by (simp add: candidate_iff)
  qed
  from det idx marks props spike_regions_separated[of s t L "spike_candidates s t" "- 1"]
  show ?thesis by blast
qed

theorem reverting_spike_regions_do_not_overlap_witness:
  "distinct (index two_spikes) \<and>
   spike_regions two_spikes 1 600 (spike_candidates two_spikes 1) (- 1) = [(2, 3), (5, 7)] \<and>
   detect_reverting_spikes two_spikes 1 600 =
     Inr [(10, False), (11, False), (12, True), (13, False), (14, False),
          (15, True), (16, True), (17, False)] \<and>
   fgt (snd (calculate_pct_change two_spikes ! 2)) 1 \<and>
   fgt (snd (calculate_pct_change two_spikes ! 5)) 1"
proof -
  have h: "distinct (index two_spikes)" by code_simp
  have r: "spike_regions two_spikes 1 600 (spike_candidates two_spikes 1) (- 1) = [(2, 3), (5, 7)]"
    by code_simp
  have d: "detect_reverting_spikes two_spikes 1 600 =
     Inr [(10, False), (11, False), (12, True), (13, False), (14, False),
          (15, True), (16, True), (17, False)]"
    by code_simp
  from reverting_spike_regions_do_not_overlap[OF h, of 1 600] have
    "\<forall>(p, r)\<in>set (spike_regions two_spikes 1 600 (spike_candidates two_spikes 1) (- 1)).
       p < r \<and> r < length two_spikes \<and> fgt (snd (calculate_pct_change two_spikes ! p)) 1"
    by blast
  with h r d show ?thesis by simp
qed








section \<open>Properties of the rolling-median detector\<close>








lemma detect_rolling_nth:
  "i < length s \<Longrightarrow>
   detect_rolling_median_outliers s ! i =
     (fst (s ! i),
      fgt (fdiv (fabs (fsub (snd (s ! i)) (rolling_median (vals s) i)))
             (fabs (rolling_median (vals s) i))) ROLLING_DEVIATION_THRESHOLD)"
  by (simp add: detect_rolling_median_outliers_def nth_enumerate_eq split_beta Let_def)





section \<open>Degenerate series\<close>




lemma set_nan_all_false: "set_nan s (all_false s) = s"
  by (intro nth_equalityI)
     (auto simp: set_nan_def all_false_def split_beta)



lemma apply_ffc_all_false:
  "apply_forward_fill_correction s (all_false s) = Inr (ffill s)"
  by (simp add: apply_forward_fill_correction_def index_all_false set_nan_all_false)




section \<open>The pipeline on a unique index\<close>




section \<open>Properties of the pipeline\<close>

subsection \<open>Errors of the pipeline\<close>













subsection \<open>The rolling-median detector at a zero median\<close>

lemma rolling_flag_iff:
  assumes "i < length s"
  shows "snd (detect_rolling_median_outliers s ! i) \<longleftrightarrow>
           (\<exists>x m. snd (s ! i) = Some x \<and> rolling_median (vals s) i = Some m \<and>
              (if m = 0 then x \<noteq> 0 else ROLLING_DEVIATION_THRESHOLD < \<bar>x - m\<bar> / \<bar>m\<bar>))"
  by (cases "snd (s ! i)"; cases "rolling_median (vals s) i")
     (simp_all add: detect_rolling_nth[OF assms])

text \<open>
  Claim C5 fails on the code where the rolling median is zero: in the series
  \<open>0, 0, 7, 0, 0\<close> the median at position 2 is \<open>0\<close>, the deviation \<open>7 / 0\<close> is
  infinite, and the position is flagged and then overwritten by the correction.
  (\<open>rolling_flag_iff\<close> above states when the detector flags a position.)
\<close>

theorem rolling_median_zero_flags:
  "rolling_median (vals zero_median) 2 = Some 0 \<and>
   detect_rolling_median_outliers zero_median
     = [(0, False), (1, False), (2, True), (3, False), (4, False)] \<and>
   rolling_pass zero_median
     = Inr [(0, Some 0), (1, Some 0), (2, Some 0), (3, Some 0), (4, Some 0)]"
  by code_simp

subsection \<open>Running the pipeline again\<close>

lemma ffill_from_idem: "ffill_from lv (ffill_from lv s) = ffill_from lv s"
proof (induction lv s rule: ffill_from.induct)
  case (2 lv l rest)
  then show ?case by (cases lv) simp_all
qed simp_all

lemma ffill_idem: "ffill (ffill s) = ffill s"
  by (simp add: ffill_def ffill_from_idem)

lemma rolling_pass_filled: "rolling_pass c = Inr x \<Longrightarrow> ffill x = x"
  by (auto simp: rolling_pass_def ffill_idem dest!: apply_ffc_InrD)

text \<open>
  Claim C8, amended: the pipeline returns its own output unchanged whenever no detector
  flags a position of that output (the three reversion passes and the rolling-median
  pass all return the all-false mask on it).
\<close>

theorem pipeline_idempotent_when_nothing_flagged:
  assumes "correct_shares_outstanding_outliers s = Inr x"
    and "detect_reverting_spikes x 1.00 MAX_LOOKAHEAD_DAYS = Inr (all_false x)"
    and "detect_reverting_spikes x 0.50 MAX_LOOKAHEAD_DAYS = Inr (all_false x)"
    and "detect_reverting_spikes x 0.35 MAX_LOOKAHEAD_DAYS = Inr (all_false x)"
    and "detect_rolling_median_outliers x = all_false x"
  shows "correct_shares_outstanding_outliers x = Inr x"
proof -
  from assms(1) obtain c3 where "rolling_pass c3 = Inr x"
    by (auto simp: correct_shares_outstanding_outliers_def split: sum.splits)
  then have f: "ffill x = x" by (rule rolling_pass_filled)
  have r1: "reversion_pass 1.00 x = Inr x"
    unfolding reversion_pass_def assms(2) by (simp add: apply_ffc_all_false f)
  have r2: "reversion_pass 0.50 x = Inr x"
    unfolding reversion_pass_def assms(3) by (simp add: apply_ffc_all_false f)
  have r3: "reversion_pass 0.35 x = Inr x"
    unfolding reversion_pass_def assms(4) by (simp add: apply_ffc_all_false f)
  have r4: "rolling_pass x = Inr x"
    unfolding rolling_pass_def assms(5) by (simp add: apply_ffc_all_false f)
  show ?thesis
    by (simp only: correct_shares_outstanding_outliers_def r1 r2 r3 r4 sum.case)
qed

text \<open>
  Claim C8, as stated, fails: on the series \<open>40, 40, 10, 10, 10, 15, 15\<close> the first run
  removes the two leading values in the rolling-median pass; on the result the rolling
  median is 10 and no longer 15, and the second run overwrites the two values 15.
\<close>

theorem pipeline_not_idempotent:
  "correct_shares_outstanding_outliers drifting
     = Inr [(0, None), (1, None), (2, Some 10), (3, Some 10), (4, Some 10),
            (5, Some 15), (6, Some 15)] \<and>
   correct_shares_outstanding_outliers
     [(0, None), (1, None), (2, Some 10), (3, Some 10), (4, Some 10), (5, Some 15), (6, Some 15)]
     = Inr [(0, None), (1, None), (2, Some 10), (3, Some 10), (4, Some 10),
            (5, Some 10), (6, Some 10)]"
  by code_simp

theorem pipeline_idempotent_when_nothing_flagged_witness:
  "correct_shares_outstanding_outliers scenario_a
     = Inr [(0, Some 100), (1, Some 100), (2, Some 100), (3, Some 100), (4, Some 100),
            (5, Some 100)] \<and>
   correct_shares_outstanding_outliers
     [(0, Some 100), (1, Some 100), (2, Some 100), (3, Some 100), (4, Some 100), (5, Some 100)]
     = Inr [(0, Some 100), (1, Some 100), (2, Some 100), (3, Some 100), (4, Some 100),
            (5, Some 100)]"
proof -
  let ?x = "[(0::int, Some (100::real)), (1, Some 100), (2, Some 100), (3, Some 100),
             (4, Some 100), (5, Some 100)]"
  have h1: "correct_shares_outstanding_outliers scenario_a = Inr ?x" by code_simp
  have h2: "detect_reverting_spikes ?x 1.00 MAX_LOOKAHEAD_DAYS = Inr (all_false ?x)" by code_simp
  have h3: "detect_reverting_spikes ?x 0.50 MAX_LOOKAHEAD_DAYS = Inr (all_false ?x)" by code_simp
  have h4: "detect_reverting_spikes ?x 0.35 MAX_LOOKAHEAD_DAYS = Inr (all_false ?x)" by code_simp
  have h5: "detect_rolling_median_outliers ?x = all_false ?x" by code_simp
  from pipeline_idempotent_when_nothing_flagged[OF h1 h2 h3 h4 h5] h1 show ?thesis by simp
qed

subsection \<open>Values are only copied forward\<close>

text \<open>
  Claim C10: whenever the pipeline returns a series, that series has the length of the
  input, and every value present in it at a position \<open>i\<close> is the input's value at \<open>i\<close>
  or at an earlier position: values are only copied forward, never made up.
\<close>

theorem pipeline_copies_observed_values:
  assumes "correct_shares_outstanding_outliers s = Inr out"
  shows "length out = length s \<and>
         (\<forall>i<length s. \<forall>x. snd (out ! i) = Some x \<longrightarrow> (\<exists>j\<le>i. snd (s ! j) = Some x))"
  using pipeline_copies[OF assms] index_eq_length[of out s]
  unfolding copies_forward_def by blast

theorem pipeline_copies_observed_values_witness:
  "correct_shares_outstanding_outliers scenario_a =
     Inr [(0, Some 100), (1, Some 100), (2, Some 100), (3, Some 100), (4, Some 100), (5, Some 100)] \<and>
   (\<exists>j\<le>3. snd (scenario_a ! j) = Some 100)"
proof -
  have h: "correct_shares_outstanding_outliers scenario_a =
     Inr [(0, Some 100), (1, Some 100), (2, Some 100), (3, Some 100), (4, Some 100), (5, Some 100)]"
    by code_simp
  have l: "(3::nat) < length scenario_a" by code_simp
  from pipeline_copies_observed_values[OF h] l
  have "\<forall>x. snd ([(0::int, Some (100::real)), (1, Some 100), (2, Some 100), (3, Some 100),
            (4, Some 100), (5, Some 100)] ! 3) = Some x \<longrightarrow>
          (\<exists>j\<le>3. snd (scenario_a ! j) = Some x)"
    by blast
  then have "\<exists>j\<le>3. snd (scenario_a ! j) = Some 100" by simp
  with h show ?thesis by blast
qed

end
